theory Spec2Isabelle
  imports Main
begin

section \<open>The configuration snapshot\<close>

text \<open>
  The supervisor of \<^verbatim>\<open>pkg/operator/ceph/cluster/monitoring.go\<close> reads the desired state
  through \<^verbatim>\<open>cluster.Spec\<close>. Of the \<^verbatim>\<open>cephv1\<close> types only the fields that this file
  reads are kept: \<^verbatim>\<open>HealthCheck.DaemonHealth.{Monitor,ObjectStorageDaemon,Status}.Disabled\<close>
  and \<^verbatim>\<open>RemoveOSDsIfOutAndSafeToRemove\<close>.
\<close>

record HealthCheckSpec =
  Disabled :: bool

record DaemonHealthSpec =
  Status :: HealthCheckSpec
  Monitor :: HealthCheckSpec
  ObjectStorageDaemon :: HealthCheckSpec

record CephClusterHealthCheckSpec =
  DaemonHealth :: DaemonHealthSpec

record ClusterSpec =
  HealthCheck :: CephClusterHealthCheckSpec
  RemoveOSDsIfOutAndSafeToRemove :: bool

section \<open>Channels, records, effects\<close>

text \<open>
  A Go channel is a reference: the registry record and the goroutine that was handed the
  channel share it. Channels are therefore addresses into an explicit store \<open>chans\<close>,
  which holds for every channel made so far whether it has been closed.
\<close>

type_synonym chan = nat

text \<open>\<^verbatim>\<open>clusterHealth{stopChan, monitoringRunning}\<close>\<close>

record clusterHealth =
  stopChan :: chan
  monitoringRunning :: bool

text \<open>
  The health checkers are external collaborators. A checker value records which
  constructor built it and from which arguments of this file:
  \<^verbatim>\<open>mon.NewHealthChecker(cluster.mons, cluster.Spec)\<close>,
  \<^verbatim>\<open>osd.NewOSDHealthMonitor(c.context, cluster.Namespace, cluster.Spec.RemoveOSDsIfOutAndSafeToRemove, cluster.Spec.HealthCheck)\<close>,
  \<^verbatim>\<open>newCephStatusChecker(c.context, cluster.Namespace, cephUser, c.namespacedName, cluster.Spec.HealthCheck)\<close>.
\<close>

datatype checker =
  MonHealthChecker ClusterSpec
| OSDHealthMonitor string bool CephClusterHealthCheckSpec
| CephStatusChecker string string CephClusterHealthCheckSpec

fun kind_of :: "checker \<Rightarrow> string" where
  "kind_of (MonHealthChecker _) = ''mon''"
| "kind_of (OSDHealthMonitor _ _ _) = ''osd''"
| "kind_of (CephStatusChecker _ _ _) = ''status''"

text \<open>
  What one pass does to the outside, in program order: log lines (format string and
  arguments), \<^verbatim>\<open>go checker.Check/Start/checkCephStatus(stopChan)\<close>, \<^verbatim>\<open>close(stopChan)\<close>,
  \<^verbatim>\<open>clientController.StartWatch(cluster.stopCh)\<close> and \<^verbatim>\<open>go bucketController.Run(cluster.stopCh)\<close>.
\<close>

datatype event =
  Debugf string "string list"
| Infof string "string list"
| Go checker chan
| Close chan
| StartWatch string chan
| GoRun string string chan

text \<open>
  The state that \<^verbatim>\<open>configureCephMonitoring\<close> reads and writes: the fields of \<^verbatim>\<open>*cluster\<close>
  (\<open>Namespace\<close>, \<open>Spec\<close>, \<open>monitoringChannels\<close>, \<open>watchersActivated\<close>, \<open>stopCh\<close>), the
  field \<^verbatim>\<open>c.osdChecker\<close> of the controller, the channel store and the effects so far.
  The registry \<^verbatim>\<open>map[string]*clusterHealth\<close> is taken as allocated and is modelled by value:
  this file reaches a record only through its key.
\<close>

record state =
  Namespace :: string
  Spec :: ClusterSpec
  monitoringChannels :: "string \<rightharpoonup> clusterHealth"
  watchersActivated :: bool
  stopCh :: chan
  osdChecker :: "checker option"
  chans :: "bool list"
  trace :: "event list"

text \<open>
  A Go runtime panic is the error value; it carries the state at the moment it is raised.
  Nothing in this file recovers, so a panic ends the pass and the process.
\<close>

datatype panic = CloseOfClosedChannel | CloseOfNilChannel | NilPointerDereference

type_synonym outcome = "(panic \<times> state) + state"

definition andThen :: "outcome \<Rightarrow> (state \<Rightarrow> outcome) \<Rightarrow> outcome" where
  "andThen r f = (case r of Inl e \<Rightarrow> Inl e | Inr s \<Rightarrow> f s)"

definition emit :: "event \<Rightarrow> state \<Rightarrow> state" where
  "emit e s = s\<lparr>trace := trace s @ [e]\<rparr>"

text \<open>\<^verbatim>\<open>make(chan struct{})\<close>: a new, open channel, distinct from every earlier one.\<close>

definition make_chan :: "state \<Rightarrow> chan \<times> state" where
  "make_chan s = (length (chans s), s\<lparr>chans := chans s @ [False]\<rparr>)"

text \<open>
  \<^verbatim>\<open>close(ch)\<close>: Go panics on a channel that is already closed, and on a nil channel
  (here: an address outside the store).
\<close>

definition close_chan :: "chan \<Rightarrow> state \<Rightarrow> outcome" where
  "close_chan ch s =
     (if ch < length (chans s) then
        (if chans s ! ch then Inl (CloseOfClosedChannel, s)
         else Inr (emit (Close ch) (s\<lparr>chans := (chans s)[ch := True]\<rparr>)))
      else Inl (CloseOfNilChannel, s))"

text \<open>\<^verbatim>\<open>cluster.monitoringChannels[daemon].monitoringRunning = b\<close>\<close>

definition set_running :: "string \<Rightarrow> bool \<Rightarrow> state \<Rightarrow> outcome" where
  "set_running daemon b s =
     (case monitoringChannels s daemon of
        None \<Rightarrow> Inl (NilPointerDereference, s)
      | Some health \<Rightarrow>
          Inr (s\<lparr>monitoringChannels :=
                 (monitoringChannels s)(daemon \<mapsto> health\<lparr>monitoringRunning := b\<rparr>)\<rparr>))"

section \<open>The three functions of monitoring.go\<close>

definition isMonitoringDisabled :: "string \<Rightarrow> ClusterSpec \<Rightarrow> bool" where
  "isMonitoringDisabled daemon clusterSpec =
     (if daemon = ''mon'' then Disabled (Monitor (DaemonHealth (HealthCheck clusterSpec)))
      else if daemon = ''osd'' then
        Disabled (ObjectStorageDaemon (DaemonHealth (HealthCheck clusterSpec)))
      else if daemon = ''status'' then Disabled (Status (DaemonHealth (HealthCheck clusterSpec)))
      else False)"

text \<open>
  \<^verbatim>\<open>go checker.M(cluster.monitoringChannels[daemon].stopChan)\<close>: the argument is evaluated
  by the caller, when the go statement runs.
\<close>

definition go_check :: "checker \<Rightarrow> string \<Rightarrow> state \<Rightarrow> outcome" where
  "go_check chk daemon s =
     (case monitoringChannels s daemon of
        None \<Rightarrow> Inl (NilPointerDereference, s)
      | Some health \<Rightarrow> Inr (emit (Go chk (stopChan health)) s))"

definition enabling :: "string \<Rightarrow> state \<Rightarrow> state" where
  "enabling daemon s =
     emit (Infof ''enabling ceph %s monitoring goroutine for cluster %q'' [daemon, Namespace s]) s"

definition startMonitoringCheck :: "string \<Rightarrow> string \<Rightarrow> state \<Rightarrow> outcome" where
  "startMonitoringCheck daemon cephUser s =
     (if daemon = ''mon'' then
        go_check (MonHealthChecker (Spec s)) daemon (enabling daemon s)
      else if daemon = ''osd'' then
        (let chk = OSDHealthMonitor (Namespace s) (RemoveOSDsIfOutAndSafeToRemove (Spec s))
                     (HealthCheck (Spec s))
         in go_check chk daemon (enabling daemon (s\<lparr>osdChecker := Some chk\<rparr>)))
      else if daemon = ''status'' then
        go_check (CephStatusChecker (Namespace s) cephUser (HealthCheck (Spec s))) daemon
          (enabling daemon s)
      else Inr s)"

text \<open>The body of the loop \<^verbatim>\<open>for _, daemon := range daemons\<close>.\<close>

definition reconcileDaemon :: "string \<Rightarrow> string \<Rightarrow> state \<Rightarrow> outcome" where
  "reconcileDaemon cephUser daemon s =
     (let isDisabled = isMonitoringDisabled daemon (Spec s) in
      case monitoringChannels s daemon of
        Some health \<Rightarrow>
          if monitoringRunning health then
            if isDisabled then
              andThen (close_chan (stopChan health) s) (set_running daemon False)
            else
              Inr (emit (Debugf ''ceph %s health go routine is already running for cluster %q''
                           [daemon, Namespace s]) s)
          else
            if \<not> isDisabled then
              andThen (startMonitoringCheck daemon cephUser s) (set_running daemon True)
            else Inr s
      | None \<Rightarrow>
          if \<not> isDisabled then
            (let (ch, s1) = make_chan s in
             startMonitoringCheck daemon cephUser
               (s1\<lparr>monitoringChannels :=
                     (monitoringChannels s1)(daemon \<mapsto>
                        \<lparr>stopChan = ch, monitoringRunning = True\<rparr>)\<rparr>))
          else Inr s)"

fun forDaemons :: "string \<Rightarrow> string list \<Rightarrow> state \<Rightarrow> outcome" where
  "forDaemons cephUser [] s = Inr s"
| "forDaemons cephUser (daemon # daemons) s =
     andThen (reconcileDaemon cephUser daemon s) (forDaemons cephUser daemons)"

definition daemons :: "string list" where
  "daemons = [''mon'', ''osd'', ''status'']"

text \<open>The part after the loop: the watchers, behind \<^verbatim>\<open>cluster.watchersActivated\<close>.\<close>

definition startWatchers :: "string \<Rightarrow> state \<Rightarrow> outcome" where
  "startWatchers cephUser s =
     (if watchersActivated s then
        Inr (emit (Debugf
          ''cluster is already being watched by bucket and client provisioner for cluster %q''
          [Namespace s]) s)
      else
        Inr ((emit (GoRun (Namespace s) cephUser (stopCh s))
               (emit (StartWatch (Namespace s) (stopCh s)) s))\<lparr>watchersActivated := True\<rparr>))"

definition configureCephMonitoring :: "string \<Rightarrow> state \<Rightarrow> outcome" where
  "configureCephMonitoring cephUser s =
     andThen (forDaemons cephUser daemons s) (startWatchers cephUser)"

section \<open>Sequences of passes\<close>

text \<open>
  The caller of \<^verbatim>\<open>configureCephMonitoring\<close> is not part of this file. A sequence of
  passes over desired-state snapshots stores each snapshot in \<^verbatim>\<open>cluster.Spec\<close> and
  invokes the pass; a panic ends the sequence.
\<close>

fun passes :: "string \<Rightarrow> ClusterSpec list \<Rightarrow> state \<Rightarrow> outcome" where
  "passes cephUser [] s = Inr s"
| "passes cephUser (d # ds) s =
     andThen (configureCephMonitoring cephUser (s\<lparr>Spec := d\<rparr>)) (passes cephUser ds)"

text \<open>The state an outcome ends in, returned or at the panic.\<close>

fun final :: "outcome \<Rightarrow> state" where
  "final (Inr s) = s"
| "final (Inl (p, s)) = s"

text \<open>
  Modelled from the spec: the constructor of \<^verbatim>\<open>*cluster\<close> is not in this file. A new
  supervised entity has an empty registry and a gate that "starts false"; nothing has
  happened yet, and its own stop channel is the only channel, open.
\<close>

definition newCluster :: "string \<Rightarrow> ClusterSpec \<Rightarrow> state" where
  "newCluster ns spec =
     \<lparr>Namespace = ns, Spec = spec, monitoringChannels = Map.empty, watchersActivated = False,
      stopCh = 0, osdChecker = None, chans = [False], trace = []\<rparr>"

text \<open>A snapshot with the three Disabled flags as given (mon, osd, status).\<close>

definition snapshot :: "bool \<Rightarrow> bool \<Rightarrow> bool \<Rightarrow> ClusterSpec" where
  "snapshot m od st =
     \<lparr>HealthCheck = \<lparr>DaemonHealth =
        \<lparr>Status = \<lparr>Disabled = st\<rparr>, Monitor = \<lparr>Disabled = m\<rparr>,
         ObjectStorageDaemon = \<lparr>Disabled = od\<rparr>\<rparr>\<rparr>,
      RemoveOSDsIfOutAndSafeToRemove = False\<rparr>"

section \<open>Reading outcomes and traces\<close>

fun panic_of :: "outcome \<Rightarrow> panic option" where
  "panic_of (Inr s) = None"
| "panic_of (Inl (p, s)) = Some p"

text \<open>The channel handed to a task of the given kind, if the event starts one.\<close>

fun launch_of :: "string \<Rightarrow> event \<Rightarrow> chan option" where
  "launch_of k (Go chk ch) = (if kind_of chk = k then Some ch else None)"
| "launch_of k _ = None"

definition launches :: "string \<Rightarrow> event list \<Rightarrow> chan list" where
  "launches k tr = List.map_filter (launch_of k) tr"

text \<open>
  The tasks of a kind that are active after a trace: launched, and the channel they
  were handed has not been closed.
\<close>

definition active :: "string \<Rightarrow> event list \<Rightarrow> nat" where
  "active k tr = length (filter (\<lambda>ch. Close ch \<notin> set tr) (launches k tr))"

fun is_StartWatch :: "event \<Rightarrow> bool" where
  "is_StartWatch (StartWatch _ _) = True"
| "is_StartWatch _ = False"

fun is_GoRun :: "event \<Rightarrow> bool" where
  "is_GoRun (GoRun _ _ _) = True"
| "is_GoRun _ = False"

fun is_Debugf :: "event \<Rightarrow> bool" where
  "is_Debugf (Debugf _ _) = True"
| "is_Debugf _ = False"

text \<open>Snapshots used below: everything enabled, and only mon monitoring disabled.\<close>

definition all_enabled :: ClusterSpec where
  "all_enabled = snapshot False False False"

definition mon_disabled :: ClusterSpec where
  "mon_disabled = snapshot True False False"

text \<open>
  A new cluster after mon monitoring was enabled and then disabled, and after it was
  enabled once more.
\<close>

definition stopped_mon :: "string \<Rightarrow> string \<Rightarrow> state" where
  "stopped_mon u ns = final (passes u [all_enabled, mon_disabled] (newCluster ns all_enabled))"

definition relaunched_mon :: "string \<Rightarrow> string \<Rightarrow> state" where
  "relaunched_mon u ns =
     final (passes u [all_enabled, mon_disabled, all_enabled] (newCluster ns all_enabled))"

lemmas run_defs =
  all_enabled_def mon_disabled_def snapshot_def newCluster_def configureCephMonitoring_def
  daemons_def reconcileDaemon_def andThen_def isMonitoringDisabled_def make_chan_def
  startMonitoringCheck_def go_check_def enabling_def emit_def set_running_def close_chan_def
  startWatchers_def Let_def

section \<open>The launcher in closed form\<close>

text \<open>
  For the three known kinds \<^verbatim>\<open>startMonitoringCheck\<close> builds a checker, logs, and starts
  the task on the record's channel; \<open>launch\<close> is the state after that.
\<close>

definition checker_for :: "string \<Rightarrow> string \<Rightarrow> state \<Rightarrow> checker" where
  "checker_for daemon cephUser s =
     (if daemon = ''mon'' then MonHealthChecker (Spec s)
      else if daemon = ''osd'' then
        OSDHealthMonitor (Namespace s) (RemoveOSDsIfOutAndSafeToRemove (Spec s)) (HealthCheck (Spec s))
      else CephStatusChecker (Namespace s) cephUser (HealthCheck (Spec s)))"

definition launch :: "string \<Rightarrow> string \<Rightarrow> chan \<Rightarrow> state \<Rightarrow> state" where
  "launch daemon cephUser ch s =
     s\<lparr>osdChecker := (if daemon = ''osd'' then Some (checker_for daemon cephUser s) else osdChecker s),
       trace := trace s @ [Infof ''enabling ceph %s monitoring goroutine for cluster %q'' [daemon, Namespace s],
                           Go (checker_for daemon cephUser s) ch]\<rparr>"

section \<open>Counting watcher starts\<close>

definition client_starts :: "event list \<Rightarrow> nat" where
  "client_starts tr = length (filter is_StartWatch tr)"

definition bucket_starts :: "event list \<Rightarrow> nat" where
  "bucket_starts tr = length (filter is_GoRun tr)"

text \<open>
  The gate agrees with the trace: each watcher has been started once if the gate is true,
  and never if it is false.
\<close>

definition gate_counts :: "state \<Rightarrow> bool" where
  "gate_counts s =
     (client_starts (trace s) = (if watchersActivated s then 1 else 0)
      \<and> bucket_starts (trace s) = (if watchersActivated s then 1 else 0))"

section \<open>A registry that agrees with the snapshot\<close>

text \<open>The record of a kind agrees with the snapshot: running iff enabled, absent only if disabled.\<close>

definition settled :: "string \<Rightarrow> state \<Rightarrow> bool" where
  "settled k s =
     (case monitoringChannels s k of
        None \<Rightarrow> isMonitoringDisabled k (Spec s)
      | Some h \<Rightarrow> monitoringRunning h = (\<not> isMonitoringDisabled k (Spec s)))"

text \<open>What a pass logs for a kind, and as a whole, when there is nothing to do.\<close>

definition already_running :: "string \<Rightarrow> state \<Rightarrow> event list" where
  "already_running k s =
     (if isMonitoringDisabled k (Spec s) then []
      else [Debugf ''ceph %s health go routine is already running for cluster %q'' [k, Namespace s]])"

definition already_logs :: "state \<Rightarrow> event list" where
  "already_logs s =
     concat (map (\<lambda>k. already_running k s) daemons)
     @ [Debugf ''cluster is already being watched by bucket and client provisioner for cluster %q''
          [Namespace s]]"

section \<open>The history of one kind\<close>

text \<open>
  What a trace says about one kind and its channel: the launches of that kind (with the
  channel each was handed) and the closes of that channel. Over sequential passes this
  history is a prefix of launch, close, launch on one and the same channel.
\<close>

datatype sig = Launched chan | Fired

fun view :: "string \<Rightarrow> chan \<Rightarrow> event \<Rightarrow> sig option" where
  "view k c (Go chk ch) = (if kind_of chk = k then Some (Launched ch) else None)"
| "view k c (Close ch) = (if ch = c then Some Fired else None)"
| "view k c _ = None"

definition history :: "string \<Rightarrow> chan \<Rightarrow> event list \<Rightarrow> sig list" where
  "history k c tr = List.map_filter (view k c) tr"

definition lifecycle :: "chan \<Rightarrow> sig list" where
  "lifecycle c = [Launched c, Fired, Launched c]"

text \<open>
  How far a record is in that history: launched (1), closed (2), launched again on the
  closed channel (3).
\<close>

definition phase :: "clusterHealth \<Rightarrow> bool list \<Rightarrow> nat" where
  "phase h cs = (if monitoringRunning h then (if cs ! stopChan h then 3 else 1) else 2)"

definition health_ok :: "string \<Rightarrow> clusterHealth \<Rightarrow> bool list \<Rightarrow> event list \<Rightarrow> bool" where
  "health_ok k h cs tr =
     (stopChan h < length cs
      \<and> (\<not> monitoringRunning h \<longrightarrow> cs ! stopChan h)
      \<and> history k (stopChan h) tr = take (phase h cs) (lifecycle (stopChan h)))"

definition record_ok :: "state \<Rightarrow> string \<Rightarrow> bool" where
  "record_ok s k =
     ((monitoringChannels s k = None \<longrightarrow> launches k (trace s) = [])
      \<and> (\<forall>h. monitoringChannels s k = Some h \<longrightarrow> health_ok k h (chans s) (trace s)))"

text \<open>No two records share a stop channel.\<close>

definition chans_distinct :: "(string \<rightharpoonup> clusterHealth) \<Rightarrow> bool" where
  "chans_distinct reg =
     (\<forall>j k hj hk. j \<noteq> k \<longrightarrow> reg j = Some hj \<longrightarrow> reg k = Some hk \<longrightarrow> stopChan hj \<noteq> stopChan hk)"

definition Inv :: "state \<Rightarrow> bool" where
  "Inv s =
     ((\<forall>k. record_ok s k)
      \<and> (\<forall>c. Close c \<in> set (trace s) \<longrightarrow> c < length (chans s))
      \<and> chans_distinct (monitoringChannels s))"

text \<open>The channel of a launch entry of a history.\<close>

fun launched :: "sig \<Rightarrow> chan option" where
  "launched (Launched c) = Some c"
| "launched Fired = None"

section \<open>The three-kind scenario\<close>

text \<open>
  The snapshot that disables exactly the listed kinds, the states after a first pass with
  \<open>b\<close> disabled and a second pass with \<open>a\<close> disabled, and what the second pass did.
\<close>

definition desired :: "string list \<Rightarrow> ClusterSpec" where
  "desired off = snapshot (''mon'' \<in> set off) (''osd'' \<in> set off) (''status'' \<in> set off)"

definition after_first :: "string \<Rightarrow> string \<Rightarrow> string \<Rightarrow> state" where
  "after_first u ns b = final (passes u [desired [b]] (newCluster ns (desired [])))"

definition after_second :: "string \<Rightarrow> string \<Rightarrow> string \<Rightarrow> string \<Rightarrow> state" where
  "after_second u ns a b = final (passes u [desired [b], desired [a]] (newCluster ns (desired [])))"

definition second_pass :: "string \<Rightarrow> string \<Rightarrow> string \<Rightarrow> string \<Rightarrow> event list" where
  "second_pass u ns a b = drop (length (trace (after_first u ns b))) (trace (after_second u ns a b))"

section \<open>The desired-state resolver\<close>

text \<open>
  C6. isMonitoringDisabled is total over all daemon identifiers: for "mon", "osd" and
  "status" it returns the Disabled flag of the monitor, the object storage daemon and the
  status check of the snapshot; for every other identifier it returns false, whatever
  the snapshot. The Go function takes the snapshot by pointer and its caller passes
  \<^verbatim>\<open>cluster.Spec\<close>; here the snapshot is a value, and the function has a result for
  every identifier and every snapshot.
\<close>

theorem isMonitoringDisabled_total:
  "isMonitoringDisabled ''mon'' spec = Disabled (Monitor (DaemonHealth (HealthCheck spec)))
   \<and> isMonitoringDisabled ''osd'' spec
       = Disabled (ObjectStorageDaemon (DaemonHealth (HealthCheck spec)))
   \<and> isMonitoringDisabled ''status'' spec = Disabled (Status (DaemonHealth (HealthCheck spec)))
   \<and> (daemon \<notin> {''mon'', ''osd'', ''status''} \<longrightarrow> isMonitoringDisabled daemon spec = False)"
  by (simp add: isMonitoringDisabled_def)

theorem isMonitoringDisabled_total_witness:
  "isMonitoringDisabled ''mon'' (snapshot True False False) = True
   \<and> isMonitoringDisabled ''osd'' (snapshot True False False) = False
   \<and> isMonitoringDisabled ''status'' (snapshot True False False) = False
   \<and> ''mgr'' \<notin> {''mon'', ''osd'', ''status''}
   \<and> isMonitoringDisabled ''mgr'' (snapshot True True True) = False"
  using isMonitoringDisabled_total [of "snapshot True False False" "''mgr''"]
    isMonitoringDisabled_total [of "snapshot True True True" "''mgr''"]
  by (simp add: snapshot_def)

section \<open>The task launcher\<close>

text \<open>
  C10. For every daemon identifier outside "mon", "osd", "status" and every state,
  startMonitoringCheck returns normally with the state unchanged: no task launched, no
  log line, no panic, registry and everything else as before.
\<close>

theorem startMonitoringCheck_unknown_noop:
  "daemon \<notin> {''mon'', ''osd'', ''status''} \<Longrightarrow> startMonitoringCheck daemon cephUser s = Inr s"
  by (simp add: startMonitoringCheck_def)

theorem startMonitoringCheck_unknown_noop_witness:
  "''mgr'' \<notin> {''mon'', ''osd'', ''status''}
   \<and> startMonitoringCheck ''mgr'' ''client.admin'' (relaunched_mon ''client.admin'' ''rook-ceph'')
       = Inr (relaunched_mon ''client.admin'' ''rook-ceph'')"
  using startMonitoringCheck_unknown_noop
    [of "''mgr''" "''client.admin''" "relaunched_mon ''client.admin'' ''rook-ceph''"]
  by simp

section \<open>Re-enabling a stopped kind\<close>

text \<open>
  C1 (fails on the code). On a new cluster the passes enable, disable mon, enable,
  disable mon end in the Go panic "close of closed channel": the fourth pass does not
  complete.
\<close>

theorem enable_disable_twice_panics:
  "panic_of (passes u [all_enabled, mon_disabled, all_enabled, mon_disabled]
               (newCluster ns all_enabled)) = Some CloseOfClosedChannel"
  by (simp add: run_defs)

text \<open>
  C2 (fails on the code). After enable and disable the mon record is Stopped and its
  channel 1 has been closed. Enabling mon again keeps the record's channel and hands
  that same, closed channel 1 to the new task.
\<close>

theorem relaunch_reuses_closed_channel:
  "monitoringChannels (stopped_mon u ns) ''mon'' = Some \<lparr>stopChan = 1, monitoringRunning = False\<rparr>
   \<and> chans (stopped_mon u ns) ! 1 = True
   \<and> Close 1 \<in> set (trace (stopped_mon u ns))
   \<and> trace (final (reconcileDaemon u ''mon'' ((stopped_mon u ns)\<lparr>Spec := all_enabled\<rparr>)))
       = trace (stopped_mon u ns)
         @ [Infof ''enabling ceph %s monitoring goroutine for cluster %q'' [''mon'', ns],
            Go (MonHealthChecker all_enabled) 1]
   \<and> monitoringChannels (final (reconcileDaemon u ''mon'' ((stopped_mon u ns)\<lparr>Spec := all_enabled\<rparr>)))
       ''mon'' = Some \<lparr>stopChan = 1, monitoringRunning = True\<rparr>"
  by (simp add: stopped_mon_def run_defs)

text \<open>
  C3 (fails on the code). In the state reached by enable, disable, enable the mon record
  is Running. A pass with mon disabled does not take it to Stopped: the pass panics in
  close, with the registry as it was (running still true) and no signal sent.
\<close>

theorem running_disabled_panics:
  "monitoringChannels (relaunched_mon u ns) ''mon'' = Some \<lparr>stopChan = 1, monitoringRunning = True\<rparr>
   \<and> isMonitoringDisabled ''mon'' mon_disabled
   \<and> configureCephMonitoring u ((relaunched_mon u ns)\<lparr>Spec := mon_disabled\<rparr>)
       = Inl (CloseOfClosedChannel, (relaunched_mon u ns)\<lparr>Spec := mon_disabled\<rparr>)"
  by (simp add: relaunched_mon_def run_defs)

section \<open>The transition table, branch by branch\<close>

text \<open>
  One lemma per branch of the loop body. The row Running and disabled has three outcomes:
  the close succeeds on an open channel, and panics on a closed or nil one.
\<close>

lemma kind_of_checker_for: "k \<in> set daemons \<Longrightarrow> kind_of (checker_for k u s) = k"
  by (auto simp: daemons_def checker_for_def)

lemma startMonitoringCheck_known:
  "k \<in> set daemons \<Longrightarrow> monitoringChannels s k = Some h \<Longrightarrow>
   startMonitoringCheck k u s = Inr (launch k u (stopChan h) s)"
  by (auto simp: daemons_def startMonitoringCheck_def go_check_def enabling_def emit_def launch_def checker_for_def Let_def)

lemma absent_disabled:
  "monitoringChannels s k = None \<Longrightarrow> isMonitoringDisabled k (Spec s) \<Longrightarrow> reconcileDaemon u k s = Inr s"
  by (simp add: reconcileDaemon_def)

lemma absent_enabled:
  "monitoringChannels s k = None \<Longrightarrow> \<not> isMonitoringDisabled k (Spec s) \<Longrightarrow> k \<in> set daemons \<Longrightarrow>
   reconcileDaemon u k s =
     Inr (launch k u (length (chans s))
       (s\<lparr>chans := chans s @ [False],
          monitoringChannels := (monitoringChannels s)(k \<mapsto> \<lparr>stopChan = length (chans s), monitoringRunning = True\<rparr>)\<rparr>))"
  by (simp add: reconcileDaemon_def make_chan_def startMonitoringCheck_known)

lemma running_enabled:
  "monitoringChannels s k = Some h \<Longrightarrow> monitoringRunning h \<Longrightarrow> \<not> isMonitoringDisabled k (Spec s) \<Longrightarrow>
   reconcileDaemon u k s =
     Inr (emit (Debugf ''ceph %s health go routine is already running for cluster %q'' [k, Namespace s]) s)"
  by (simp add: reconcileDaemon_def)

lemma running_disabled_open:
  "monitoringChannels s k = Some h \<Longrightarrow> monitoringRunning h \<Longrightarrow> isMonitoringDisabled k (Spec s) \<Longrightarrow>
   stopChan h < length (chans s) \<Longrightarrow> \<not> chans s ! stopChan h \<Longrightarrow>
   reconcileDaemon u k s =
     Inr (s\<lparr>chans := (chans s)[stopChan h := True], trace := trace s @ [Close (stopChan h)],
           monitoringChannels := (monitoringChannels s)(k \<mapsto> h\<lparr>monitoringRunning := False\<rparr>)\<rparr>)"
  by (simp add: reconcileDaemon_def close_chan_def andThen_def set_running_def emit_def)

lemma running_disabled_closed:
  "monitoringChannels s k = Some h \<Longrightarrow> monitoringRunning h \<Longrightarrow> isMonitoringDisabled k (Spec s) \<Longrightarrow>
   stopChan h < length (chans s) \<Longrightarrow> chans s ! stopChan h \<Longrightarrow>
   reconcileDaemon u k s = Inl (CloseOfClosedChannel, s)"
  by (simp add: reconcileDaemon_def close_chan_def andThen_def)

lemma running_disabled_nil:
  "monitoringChannels s k = Some h \<Longrightarrow> monitoringRunning h \<Longrightarrow> isMonitoringDisabled k (Spec s) \<Longrightarrow>
   \<not> stopChan h < length (chans s) \<Longrightarrow>
   reconcileDaemon u k s = Inl (CloseOfNilChannel, s)"
  by (simp add: reconcileDaemon_def close_chan_def andThen_def)

lemma stopped_enabled:
  "monitoringChannels s k = Some h \<Longrightarrow> \<not> monitoringRunning h \<Longrightarrow> \<not> isMonitoringDisabled k (Spec s) \<Longrightarrow>
   k \<in> set daemons \<Longrightarrow>
   reconcileDaemon u k s =
     Inr ((launch k u (stopChan h) s)
            \<lparr>monitoringChannels := (monitoringChannels s)(k \<mapsto> h\<lparr>monitoringRunning := True\<rparr>)\<rparr>)"
  by (simp add: reconcileDaemon_def startMonitoringCheck_known andThen_def set_running_def launch_def)

lemma stopped_disabled:
  "monitoringChannels s k = Some h \<Longrightarrow> \<not> monitoringRunning h \<Longrightarrow> isMonitoringDisabled k (Spec s) \<Longrightarrow>
   reconcileDaemon u k s = Inr s"
  by (simp add: reconcileDaemon_def)

lemma final_andThen:
  "final (andThen r f) = (case r of Inl e \<Rightarrow> final r | Inr s \<Rightarrow> final (f s))"
  by (simp add: andThen_def split: sum.splits)

text \<open>The state one turn of the loop ends in, in closed form.\<close>

lemma final_reconcileDaemon:
  assumes "k \<in> set daemons"
  shows "final (reconcileDaemon u k s) =
    (case monitoringChannels s k of
       None \<Rightarrow>
         if isMonitoringDisabled k (Spec s) then s
         else launch k u (length (chans s))
           (s\<lparr>chans := chans s @ [False],
              monitoringChannels := (monitoringChannels s)(k \<mapsto> \<lparr>stopChan = length (chans s), monitoringRunning = True\<rparr>)\<rparr>)
     | Some h \<Rightarrow>
         if monitoringRunning h then
           if isMonitoringDisabled k (Spec s) then
             if stopChan h < length (chans s) \<and> \<not> chans s ! stopChan h then
               s\<lparr>chans := (chans s)[stopChan h := True], trace := trace s @ [Close (stopChan h)],
                 monitoringChannels := (monitoringChannels s)(k \<mapsto> h\<lparr>monitoringRunning := False\<rparr>)\<rparr>
             else s
           else emit (Debugf ''ceph %s health go routine is already running for cluster %q'' [k, Namespace s]) s
         else
           if isMonitoringDisabled k (Spec s) then s
           else (launch k u (stopChan h) s)
                  \<lparr>monitoringChannels := (monitoringChannels s)(k \<mapsto> h\<lparr>monitoringRunning := True\<rparr>)\<rparr>)"
proof (cases "monitoringChannels s k")
  case None
  then show ?thesis using assms by (simp add: absent_disabled absent_enabled)
next
  case (Some h)
  show ?thesis
  proof (cases "monitoringRunning h")
    case True
    show ?thesis
    proof (cases "isMonitoringDisabled k (Spec s)")
      case dis: True
      show ?thesis
      proof (cases "stopChan h < length (chans s)")
        case True
        with Some \<open>monitoringRunning h\<close> dis show ?thesis
          by (cases "chans s ! stopChan h") (simp_all add: running_disabled_open running_disabled_closed)
      next
        case False
        with Some \<open>monitoringRunning h\<close> dis show ?thesis by (simp add: running_disabled_nil)
      qed
    next
      case False
      with Some True show ?thesis by (simp add: running_enabled)
    qed
  next
    case False
    with Some assms show ?thesis
      by (cases "isMonitoringDisabled k (Spec s)") (simp_all add: stopped_enabled stopped_disabled)
  qed
qed

lemma passes_final_induct:
  assumes init: "P s"
    and step: "\<And>s k. P s \<Longrightarrow> k \<in> set daemons \<Longrightarrow> P (final (reconcileDaemon u k s))"
    and watch: "\<And>s. P s \<Longrightarrow> P (final (startWatchers u s))"
    and spec: "\<And>s d. P s \<Longrightarrow> P (s\<lparr>Spec := d\<rparr>)"
  shows "P (final (passes u ds s))"
proof -
  have loop: "P (final (forDaemons u ks t))" if "P t" "set ks \<subseteq> set daemons" for ks t
    using that
  proof (induction ks arbitrary: t)
    case Nil
    then show ?case by simp
  next
    case (Cons k ks)
    from Cons.prems have k: "P (final (reconcileDaemon u k t))" by (simp add: step)
    show ?case
    proof (cases "reconcileDaemon u k t")
      case (Inl e)
      with k show ?thesis by (simp add: andThen_def)
    next
      case (Inr t')
      with k Cons.prems Cons.IH [of t'] show ?thesis by (simp add: andThen_def)
    qed
  qed
  have pass: "P (final (configureCephMonitoring u t))" if "P t" for t
  proof (cases "forDaemons u daemons t")
    case (Inl e)
    with loop [OF that, of daemons] show ?thesis by (simp add: configureCephMonitoring_def andThen_def)
  next
    case (Inr t')
    with loop [OF that, of daemons] watch [of t'] show ?thesis
      by (simp add: configureCephMonitoring_def andThen_def)
  qed
  from init show ?thesis
  proof (induction ds arbitrary: s)
    case Nil
    then show ?case by simp
  next
    case (Cons d ds)
    have p: "P (final (configureCephMonitoring u (s\<lparr>Spec := d\<rparr>)))"
      by (rule pass) (rule spec, rule Cons.prems)
    show ?case
    proof (cases "configureCephMonitoring u (s\<lparr>Spec := d\<rparr>)")
      case (Inl e)
      with p show ?thesis by (simp add: andThen_def)
    next
      case (Inr t')
      with p Cons.IH [of t'] show ?thesis by (simp add: andThen_def)
    qed
  qed
qed

section \<open>Idempotence\<close>

lemma settled_cong:
  "monitoringChannels s' k = monitoringChannels s k \<Longrightarrow> Spec s' = Spec s \<Longrightarrow> settled k s' = settled k s"
  by (simp add: settled_def split: option.splits)

lemma returns_open:
  assumes "reconcileDaemon u k s = Inr s'" "monitoringChannels s k = Some h" "monitoringRunning h"
    "isMonitoringDisabled k (Spec s)"
  shows "stopChan h < length (chans s) \<and> \<not> chans s ! stopChan h"
proof (rule ccontr)
  assume "\<not> ?thesis"
  then consider "\<not> stopChan h < length (chans s)" | "stopChan h < length (chans s)" "chans s ! stopChan h"
    by blast
  then show False
  proof cases
    case 1
    with assms show ?thesis by (simp add: running_disabled_nil)
  next
    case 2
    with assms show ?thesis by (simp add: running_disabled_closed)
  qed
qed

lemma reconcile_settles:
  assumes "reconcileDaemon u k s = Inr s'" "k \<in> set daemons"
  shows "settled k s' \<and> Spec s' = Spec s \<and> Namespace s' = Namespace s
         \<and> (\<forall>j. j \<noteq> k \<longrightarrow> monitoringChannels s' j = monitoringChannels s j)"
proof -
  have "s' = final (reconcileDaemon u k s)" using assms by simp
  then show ?thesis using assms(2) returns_open [OF assms(1)]
    by (auto simp: final_reconcileDaemon settled_def launch_def emit_def split: option.splits)
qed

lemma settled_quiet:
  "settled k s \<Longrightarrow> reconcileDaemon u k s = Inr (s\<lparr>trace := trace s @ already_running k s\<rparr>)"
  by (auto simp: settled_def already_running_def reconcileDaemon_def emit_def split: option.splits)

lemma settled_trace [simp]: "settled k (s\<lparr>trace := tr\<rparr>) = settled k s"
  by (rule settled_cong) simp_all

lemma already_running_trace [simp]: "already_running k (s\<lparr>trace := tr\<rparr>) = already_running k s"
  by (simp add: already_running_def)

lemma pass_settles:
  assumes "configureCephMonitoring u s = Inr s'"
  shows "settled ''mon'' s' \<and> settled ''osd'' s' \<and> settled ''status'' s' \<and> watchersActivated s'"
proof -
  from assms obtain s1 s2 s3 where
    s1: "reconcileDaemon u ''mon'' s = Inr s1" and
    s2: "reconcileDaemon u ''osd'' s1 = Inr s2" and
    s3: "reconcileDaemon u ''status'' s2 = Inr s3" and
    w: "startWatchers u s3 = Inr s'"
    by (auto simp: configureCephMonitoring_def daemons_def andThen_def split: sum.splits)
  note r1 = reconcile_settles [OF s1] and r2 = reconcile_settles [OF s2]
    and r3 = reconcile_settles [OF s3]
  have "settled ''mon'' s2" using r1 r2 settled_cong [of s2 "''mon''" s1] by (simp add: daemons_def)
  then have "settled ''mon'' s3" using r3 settled_cong [of s3 "''mon''" s2] by (simp add: daemons_def)
  moreover have "settled ''osd'' s3" using r2 r3 settled_cong [of s3 "''osd''" s2] by (simp add: daemons_def)
  moreover have "settled ''status'' s3" using r3 by (simp add: daemons_def)
  moreover have "monitoringChannels s' = monitoringChannels s3 \<and> Spec s' = Spec s3 \<and> watchersActivated s'"
    using w by (auto simp: startWatchers_def emit_def split: if_splits)
  ultimately show ?thesis
    using settled_cong [of s' "''mon''" s3] settled_cong [of s' "''osd''" s3]
      settled_cong [of s' "''status''" s3] by simp
qed

text \<open>
  C4. Idempotence: if a pass returns, a second pass on the state it returned (same
  snapshot, still in \<^verbatim>\<open>cluster.Spec\<close>) returns that state again, with nothing added to
  the trace but Debugf lines: one "already running" line per enabled kind and the
  "already being watched" line. So no launch, no close, no change to the registry, the
  channels, the gate or the osd checker. A first pass that panics has no second pass.
\<close>

theorem reconcile_idempotent:
  assumes "configureCephMonitoring u s = Inr s'"
  shows "configureCephMonitoring u s' = Inr (s'\<lparr>trace := trace s' @ already_logs s'\<rparr>)
         \<and> list_all is_Debugf (already_logs s')"
proof -
  from pass_settles [OF assms] have
    m: "settled ''mon'' s'" and od: "settled ''osd'' s'" and st: "settled ''status'' s'"
    and w: "watchersActivated s'" by simp_all
  have "forDaemons u daemons s'
        = Inr (s'\<lparr>trace := trace s' @ concat (map (\<lambda>k. already_running k s') daemons)\<rparr>)"
    using m od st by (simp add: daemons_def andThen_def settled_quiet)
  then have "configureCephMonitoring u s' = Inr (s'\<lparr>trace := trace s' @ already_logs s'\<rparr>)"
    using w by (simp add: configureCephMonitoring_def andThen_def startWatchers_def emit_def already_logs_def)
  moreover have "list_all is_Debugf (already_logs s')"
    by (simp add: already_logs_def already_running_def daemons_def)
  ultimately show ?thesis by simp
qed

theorem reconcile_idempotent_witness:
  "configureCephMonitoring ''client.admin'' ((stopped_mon ''client.admin'' ''rook-ceph'')\<lparr>Spec := all_enabled\<rparr>)
     = Inr (relaunched_mon ''client.admin'' ''rook-ceph'')
   \<and> configureCephMonitoring ''client.admin'' (relaunched_mon ''client.admin'' ''rook-ceph'')
     = Inr ((relaunched_mon ''client.admin'' ''rook-ceph'')
         \<lparr>trace := trace (relaunched_mon ''client.admin'' ''rook-ceph'')
            @ already_logs (relaunched_mon ''client.admin'' ''rook-ceph'')\<rparr>)
   \<and> already_logs (relaunched_mon ''client.admin'' ''rook-ceph'')
     = [Debugf ''ceph %s health go routine is already running for cluster %q'' [''mon'', ''rook-ceph''],
        Debugf ''ceph %s health go routine is already running for cluster %q'' [''osd'', ''rook-ceph''],
        Debugf ''ceph %s health go routine is already running for cluster %q'' [''status'', ''rook-ceph''],
        Debugf ''cluster is already being watched by bucket and client provisioner for cluster %q''
          [''rook-ceph'']]"
proof -
  have h: "configureCephMonitoring ''client.admin'' ((stopped_mon ''client.admin'' ''rook-ceph'')\<lparr>Spec := all_enabled\<rparr>)
     = Inr (relaunched_mon ''client.admin'' ''rook-ceph'')"
    by (simp add: stopped_mon_def relaunched_mon_def run_defs)
  have l: "already_logs (relaunched_mon ''client.admin'' ''rook-ceph'')
     = [Debugf ''ceph %s health go routine is already running for cluster %q'' [''mon'', ''rook-ceph''],
        Debugf ''ceph %s health go routine is already running for cluster %q'' [''osd'', ''rook-ceph''],
        Debugf ''ceph %s health go routine is already running for cluster %q'' [''status'', ''rook-ceph''],
        Debugf ''cluster is already being watched by bucket and client provisioner for cluster %q''
          [''rook-ceph'']]"
    by (simp add: already_logs_def already_running_def relaunched_mon_def run_defs)
  from reconcile_idempotent [OF h] h l show ?thesis by simp
qed

section \<open>The one-shot gate\<close>

lemma gate_counts_step:
  "gate_counts s \<Longrightarrow> k \<in> set daemons \<Longrightarrow> gate_counts (final (reconcileDaemon u k s))"
  by (auto simp: final_reconcileDaemon gate_counts_def client_starts_def bucket_starts_def
      launch_def emit_def split: option.splits if_splits)

lemma gate_counts_watch: "gate_counts s \<Longrightarrow> gate_counts (final (startWatchers u s))"
  by (simp add: startWatchers_def gate_counts_def client_starts_def bucket_starts_def emit_def)

lemma gate_counts_passes: "gate_counts s \<Longrightarrow> gate_counts (final (passes u ds s))"
  by (rule passes_final_induct) (simp_all add: gate_counts_step gate_counts_watch, simp add: gate_counts_def)

lemma gate_stays_step:
  "watchersActivated s \<Longrightarrow> k \<in> set daemons \<Longrightarrow> watchersActivated (final (reconcileDaemon u k s))"
  by (simp add: final_reconcileDaemon launch_def emit_def split: option.splits)

lemma gate_stays_watch: "watchersActivated (final (startWatchers u s))"
  by (simp add: startWatchers_def emit_def)

lemma gate_stays_passes: "watchersActivated s \<Longrightarrow> watchersActivated (final (passes u ds s))"
  by (rule passes_final_induct) (simp_all add: gate_stays_step gate_stays_watch)

lemma gate_stays_pass:
  "watchersActivated s \<Longrightarrow> watchersActivated (final (configureCephMonitoring u s))"
  using gate_stays_passes [of s u "[Spec s]"]
  by (simp add: andThen_def split: sum.splits)

lemma gate_stays_launcher:
  "watchersActivated s \<Longrightarrow> watchersActivated (final (startMonitoringCheck k u s))"
  by (simp add: startMonitoringCheck_def go_check_def enabling_def emit_def Let_def split: option.splits)

text \<open>A turn of the loop on an absent record returns, and touches no other record.\<close>

lemma absent_returns:
  assumes "monitoringChannels s k = None" "k \<in> set daemons"
  shows "\<exists>s'. reconcileDaemon u k s = Inr s'
           \<and> (\<forall>j. j \<noteq> k \<longrightarrow> monitoringChannels s' j = monitoringChannels s j)
           \<and> watchersActivated s' = watchersActivated s
           \<and> gate_counts s' = gate_counts s"
  using assms
  by (cases "isMonitoringDisabled k (Spec s)")
     (simp_all add: absent_disabled absent_enabled launch_def gate_counts_def client_starts_def bucket_starts_def)

lemma first_pass_returns:
  assumes "monitoringChannels s = Map.empty" "\<not> watchersActivated s" "gate_counts s"
  shows "\<exists>s'. configureCephMonitoring u s = Inr s' \<and> watchersActivated s' \<and> gate_counts s'"
proof -
  from assms absent_returns [of s "''mon''" u] obtain s1 where
    s1: "reconcileDaemon u ''mon'' s = Inr s1" "monitoringChannels s1 ''osd'' = None"
      "monitoringChannels s1 ''status'' = None" "\<not> watchersActivated s1" "gate_counts s1"
    by (auto simp: daemons_def)
  from s1 absent_returns [of s1 "''osd''" u] obtain s2 where
    s2: "reconcileDaemon u ''osd'' s1 = Inr s2"
      "monitoringChannels s2 ''status'' = None" "\<not> watchersActivated s2" "gate_counts s2"
    by (auto simp: daemons_def)
  from s2 absent_returns [of s2 "''status''" u] obtain s3 where
    s3: "reconcileDaemon u ''status'' s2 = Inr s3" "\<not> watchersActivated s3" "gate_counts s3"
    by (auto simp: daemons_def)
  have "configureCephMonitoring u s = startWatchers u s3"
    using s1 s2 s3 by (simp add: configureCephMonitoring_def daemons_def andThen_def)
  moreover have "gate_counts (final (startWatchers u s3))" using s3 by (simp add: gate_counts_watch)
  ultimately show ?thesis using s3
    by (simp add: startWatchers_def)
qed

text \<open>
  C5. The gate of a new cluster is false. For every non-empty sequence of passes on a
  new cluster (so for every N > 1), whatever the snapshots and whether or not a later pass
  panics, the trace holds exactly one start of the client CRD watcher and exactly one
  start of the bucket controller. And once the gate is true, neither
  configureCephMonitoring nor startMonitoringCheck leaves it false, returning or not.
\<close>

theorem watchers_started_once:
  "\<not> watchersActivated (newCluster ns spec)
   \<and> (ds \<noteq> [] \<longrightarrow>
        client_starts (trace (final (passes u ds (newCluster ns spec)))) = 1
        \<and> bucket_starts (trace (final (passes u ds (newCluster ns spec)))) = 1)
   \<and> (watchersActivated s \<longrightarrow>
        watchersActivated (final (configureCephMonitoring u s))
        \<and> watchersActivated (final (startMonitoringCheck k u s)))"
proof -
  have "client_starts (trace (final (passes u ds (newCluster ns spec)))) = 1
        \<and> bucket_starts (trace (final (passes u ds (newCluster ns spec)))) = 1" if "ds \<noteq> []"
  proof -
    from that obtain d ds' where ds: "ds = d # ds'" by (cases ds) auto
    let ?s = "(newCluster ns spec)\<lparr>Spec := d\<rparr>"
    have "\<exists>s'. configureCephMonitoring u ?s = Inr s' \<and> watchersActivated s' \<and> gate_counts s'"
      by (rule first_pass_returns)
         (simp_all add: newCluster_def gate_counts_def client_starts_def bucket_starts_def)
    then obtain s' where s': "configureCephMonitoring u ?s = Inr s'" "watchersActivated s'" "gate_counts s'"
      by blast
    have "passes u ds (newCluster ns spec) = passes u ds' s'"
      using s' by (simp add: ds andThen_def)
    moreover have "gate_counts (final (passes u ds' s'))" "watchersActivated (final (passes u ds' s'))"
      using s' by (simp_all add: gate_counts_passes gate_stays_passes)
    ultimately show ?thesis by (simp add: gate_counts_def)
  qed
  then show ?thesis
    by (simp add: gate_stays_pass gate_stays_launcher) (simp add: newCluster_def)
qed

theorem watchers_started_once_witness:
  "[all_enabled, mon_disabled, all_enabled] \<noteq> []
   \<and> client_starts (trace (relaunched_mon ''client.admin'' ''rook-ceph'')) = 1
   \<and> bucket_starts (trace (relaunched_mon ''client.admin'' ''rook-ceph'')) = 1
   \<and> watchersActivated (relaunched_mon ''client.admin'' ''rook-ceph'')
   \<and> watchersActivated (final (configureCephMonitoring ''client.admin''
        (relaunched_mon ''client.admin'' ''rook-ceph'')))"
  using watchers_started_once [of "''rook-ceph''" all_enabled "[all_enabled, mon_disabled, all_enabled]"
      "''client.admin''" "relaunched_mon ''client.admin'' ''rook-ceph''" "''mon''"]
  by (simp add: relaunched_mon_def run_defs)

section \<open>The invariant of sequential passes\<close>

lemma history_append: "history k c (xs @ ys) = history k c xs @ history k c ys"
  by (simp add: history_def map_filter_def)

lemma history_Nil [simp]: "history k c [] = []"
  by (simp add: history_def map_filter_def)

lemma history_Cons: "history k c (e # tr) = (case view k c e of None \<Rightarrow> history k c tr | Some g \<Rightarrow> g # history k c tr)"
  by (simp add: history_def map_filter_def split: option.splits)

lemma launches_append: "launches k (xs @ ys) = launches k xs @ launches k ys"
  by (simp add: launches_def map_filter_def)

lemma launches_Nil [simp]: "launches k [] = []"
  by (simp add: launches_def map_filter_def)

lemma launches_Cons: "launches k (e # tr) = (case launch_of k e of None \<Rightarrow> launches k tr | Some c \<Rightarrow> c # launches k tr)"
  by (simp add: launches_def map_filter_def split: option.splits)

lemma launches_history: "launches k tr = List.map_filter launched (history k c tr)"
proof (induction tr)
  case Nil
  show ?case by (simp add: map_filter_def)
next
  case (Cons e tr)
  then show ?case by (cases e) (simp_all add: launches_Cons history_Cons map_filter_def)
qed

lemma closed_history: "Close c \<in> set tr \<longleftrightarrow> Fired \<in> set (history k c tr)"
proof (induction tr)
  case Nil
  show ?case by simp
next
  case (Cons e tr)
  then show ?case by (cases e) (auto simp: history_Cons)
qed

lemma count_history: "count_list tr (Close c) = count_list (history k c tr) Fired"
proof (induction tr)
  case Nil
  show ?case by simp
next
  case (Cons e tr)
  then show ?case by (cases e) (auto simp: history_Cons)
qed

lemma history_fresh:
  "launches k tr = [] \<Longrightarrow> Close c \<notin> set tr \<Longrightarrow> history k c tr = []"
proof (induction tr)
  case Nil
  show ?case by simp
next
  case (Cons e tr)
  then show ?case by (cases e) (auto simp: history_Cons launches_Cons split: if_splits)
qed

lemma chans_distinctD:
  "chans_distinct reg \<Longrightarrow> j \<noteq> k \<Longrightarrow> reg j = Some hj \<Longrightarrow> reg k = Some hk \<Longrightarrow> stopChan hj \<noteq> stopChan hk"
  unfolding chans_distinct_def by blast

lemma chans_distinct_new:
  assumes d: "chans_distinct reg" and lt: "\<And>l h. reg l = Some h \<Longrightarrow> stopChan h < n"
    and n: "stopChan h' = n"
  shows "chans_distinct (reg(k \<mapsto> h'))"
  unfolding chans_distinct_def
proof (intro allI impI)
  fix j i hj hi
  assume a: "j \<noteq> i" "(reg(k \<mapsto> h')) j = Some hj" "(reg(k \<mapsto> h')) i = Some hi"
  show "stopChan hj \<noteq> stopChan hi"
  proof (cases "j = k")
    case True
    with a have "hj = h'" "reg i = Some hi" by auto
    with lt [of i hi] n show ?thesis by simp
  next
    case False
    show ?thesis
    proof (cases "i = k")
      case True
      with a False have "hi = h'" "reg j = Some hj" by auto
      with lt [of j hj] n show ?thesis by simp
    next
      case ik: False
      with a False have "reg j = Some hj" "reg i = Some hi" by auto
      then show ?thesis using chans_distinctD [OF d a(1)] by blast
    qed
  qed
qed

lemma chans_distinct_same:
  assumes d: "chans_distinct reg" and k: "reg k = Some h" and n: "stopChan h' = stopChan h"
  shows "chans_distinct (reg(k \<mapsto> h'))"
  unfolding chans_distinct_def
proof (intro allI impI)
  fix j i hj hi
  assume a: "j \<noteq> i" "(reg(k \<mapsto> h')) j = Some hj" "(reg(k \<mapsto> h')) i = Some hi"
  show "stopChan hj \<noteq> stopChan hi"
  proof (cases "j = k")
    case True
    with a have "hj = h'" "reg i = Some hi" "k \<noteq> i" by auto
    with chans_distinctD [OF d \<open>k \<noteq> i\<close> k \<open>reg i = Some hi\<close>] n show ?thesis by simp
  next
    case False
    show ?thesis
    proof (cases "i = k")
      case True
      with a False have "hi = h'" "reg j = Some hj" by auto
      with chans_distinctD [OF d False \<open>reg j = Some hj\<close> k] n show ?thesis by simp
    next
      case ik: False
      with a False have "reg j = Some hj" "reg i = Some hi" by auto
      then show ?thesis using chans_distinctD [OF d a(1)] by blast
    qed
  qed
qed

lemma trace_launch [simp]:
  "trace (launch k u c s) = trace s @ [Infof ''enabling ceph %s monitoring goroutine for cluster %q'' [k, Namespace s],
              Go (checker_for k u s) c]"
  by (simp add: launch_def)

lemma chans_launch [simp]: "chans (launch k u c s) = chans s"
  by (simp add: launch_def)

lemma monitoringChannels_launch [simp]: "monitoringChannels (launch k u c s) = monitoringChannels s"
  by (simp add: launch_def)

lemma Inv_newCluster: "Inv (newCluster ns spec)"
  by (simp add: Inv_def record_ok_def newCluster_def chans_distinct_def)

lemma Inv_Spec: "Inv (s\<lparr>Spec := d\<rparr>) = Inv s"
  by (simp add: Inv_def record_ok_def)

lemma Inv_gate: "Inv (s\<lparr>watchersActivated := b\<rparr>) = Inv s"
  by (simp add: Inv_def record_ok_def)

lemma Inv_emit:
  assumes "Inv s" "\<forall>chk c. e \<noteq> Go chk c" "\<forall>c. e \<noteq> Close c"
  shows "Inv (emit e s)"
proof -
  have v: "view k c e = None" for k c using assms(2,3) by (cases e) simp_all
  have l: "launch_of k e = None" for k using assms(2) by (cases e) simp_all
  have "history k c (trace s @ [e]) = history k c (trace s)" for k c
    by (simp add: history_append history_Cons v)
  moreover have "launches k (trace s @ [e]) = launches k (trace s)" for k
    by (simp add: launches_append launches_Cons l)
  ultimately show ?thesis using assms(1)
    by (simp add: Inv_def record_ok_def health_ok_def emit_def) (use assms(3) in auto)
qed

lemma history_launch:
  "k \<in> set daemons \<Longrightarrow>
   history j c (tr @ [Infof f a, Go (checker_for k u s) n])
     = history j c tr @ (if j = k then [Launched n] else [])"
  by (simp add: history_append history_Cons kind_of_checker_for)

lemma launches_launch:
  "k \<in> set daemons \<Longrightarrow>
   launches j (tr @ [Infof f a, Go (checker_for k u s) n])
     = launches j tr @ (if j = k then [n] else [])"
  by (simp add: launches_append launches_Cons kind_of_checker_for)

lemma history_close:
  "history j c (tr @ [Close n]) = history j c tr @ (if n = c then [Fired] else [])"
  by (simp add: history_append history_Cons)

lemma launches_close: "launches j (tr @ [Close n]) = launches j tr"
  by (simp add: launches_append launches_Cons)

lemma Inv_create:
  assumes inv: "Inv s" and none: "monitoringChannels s k = None" and k: "k \<in> set daemons"
  shows "Inv (launch k u (length (chans s))
           (s\<lparr>chans := chans s @ [False],
              monitoringChannels := (monitoringChannels s)(k \<mapsto>
                \<lparr>stopChan = length (chans s), monitoringRunning = True\<rparr>)\<rparr>))"
    (is "Inv ?s'")
proof -
  let ?n = "length (chans s)"
  from inv have ok: "record_ok s j" for j by (simp add: Inv_def)
  from inv have cl: "Close c \<in> set (trace s) \<Longrightarrow> c < ?n" for c by (simp add: Inv_def)
  from inv have di: "chans_distinct (monitoringChannels s)" by (simp add: Inv_def)
  have lt: "stopChan h < ?n" if "monitoringChannels s l = Some h" for l h
    using ok [of l] that by (simp add: record_ok_def health_ok_def)
  have fresh: "history k ?n (trace s) = []"
  proof (rule history_fresh)
    show "launches k (trace s) = []" using ok [of k] none by (simp add: record_ok_def)
    show "Close ?n \<notin> set (trace s)" using cl [of ?n] by auto
  qed
  have "record_ok ?s' j" for j
  proof (cases "j = k")
    case True
    then show ?thesis using fresh k
      by (simp add: record_ok_def health_ok_def phase_def lifecycle_def history_launch)
  next
    case False
    then show ?thesis using ok [of j] k
      by (auto simp: record_ok_def health_ok_def phase_def history_launch launches_launch nth_append)
  qed
  moreover have "Close c \<in> set (trace ?s') \<longrightarrow> c < length (chans ?s')" for c
    using cl [of c] by auto
  moreover have "chans_distinct (monitoringChannels ?s')"
    using chans_distinct_new [OF di lt, where h' = "\<lparr>stopChan = ?n, monitoringRunning = True\<rparr>" and k = k]
    by simp
  ultimately show ?thesis unfolding Inv_def by blast
qed

lemma Inv_close:
  assumes inv: "Inv s" and some: "monitoringChannels s k = Some h" and run: "monitoringRunning h"
    and op: "stopChan h < length (chans s)" "\<not> chans s ! stopChan h"
  shows "Inv (s\<lparr>chans := (chans s)[stopChan h := True], trace := trace s @ [Close (stopChan h)],
               monitoringChannels := (monitoringChannels s)(k \<mapsto> h\<lparr>monitoringRunning := False\<rparr>)\<rparr>)"
    (is "Inv ?s'")
proof -
  from inv have ok: "record_ok s j" for j by (simp add: Inv_def)
  from inv have cl: "Close c \<in> set (trace s) \<Longrightarrow> c < length (chans s)" for c by (simp add: Inv_def)
  from inv have di: "chans_distinct (monitoringChannels s)" by (simp add: Inv_def)
  have "record_ok ?s' j" for j
  proof (cases "j = k")
    case True
    then show ?thesis using ok [of k] some run op
      by (simp add: record_ok_def health_ok_def phase_def lifecycle_def history_close)
  next
    case False
    have "stopChan hj \<noteq> stopChan h" if "monitoringChannels s j = Some hj" for hj
      using chans_distinctD [OF di False that some] .
    then show ?thesis using ok [of j] False
      by (auto simp: record_ok_def health_ok_def phase_def history_close launches_close)
  qed
  moreover have "Close c \<in> set (trace ?s') \<longrightarrow> c < length (chans ?s')" for c
    using cl [of c] op by auto
  moreover have "chans_distinct (monitoringChannels ?s')"
    using chans_distinct_same [OF di some, where h' = "h\<lparr>monitoringRunning := False\<rparr>"] by simp
  ultimately show ?thesis unfolding Inv_def by blast
qed

lemma Inv_relaunch:
  assumes inv: "Inv s" and some: "monitoringChannels s k = Some h" and run: "\<not> monitoringRunning h"
    and k: "k \<in> set daemons"
  shows "Inv ((launch k u (stopChan h) s)
           \<lparr>monitoringChannels := (monitoringChannels s)(k \<mapsto> h\<lparr>monitoringRunning := True\<rparr>)\<rparr>)"
    (is "Inv ?s'")
proof -
  from inv have ok: "record_ok s j" for j by (simp add: Inv_def)
  from inv have cl: "Close c \<in> set (trace s) \<Longrightarrow> c < length (chans s)" for c by (simp add: Inv_def)
  from inv have di: "chans_distinct (monitoringChannels s)" by (simp add: Inv_def)
  have "record_ok ?s' j" for j
  proof (cases "j = k")
    case True
    then show ?thesis using ok [of k] some run k
      by (simp add: record_ok_def health_ok_def phase_def lifecycle_def history_launch)
  next
    case False
    then show ?thesis using ok [of j] k
      by (auto simp: record_ok_def health_ok_def phase_def history_launch launches_launch)
  qed
  moreover have "Close c \<in> set (trace ?s') \<longrightarrow> c < length (chans ?s')" for c
    using cl [of c] by auto
  moreover have "chans_distinct (monitoringChannels ?s')"
    using chans_distinct_same [OF di some, where h' = "h\<lparr>monitoringRunning := True\<rparr>"] by simp
  ultimately show ?thesis unfolding Inv_def by blast
qed

lemma Inv_step:
  assumes "Inv s" "k \<in> set daemons"
  shows "Inv (final (reconcileDaemon u k s))"
proof (cases "monitoringChannels s k")
  case None
  with assms show ?thesis by (simp add: final_reconcileDaemon Inv_create)
next
  case (Some h)
  with assms show ?thesis
    by (simp add: final_reconcileDaemon Inv_close Inv_relaunch Inv_emit)
qed

lemma Inv_watch: "Inv s \<Longrightarrow> Inv (final (startWatchers u s))"
  by (simp add: startWatchers_def Inv_emit Inv_gate)

lemma Inv_passes: "Inv (final (passes u ds (newCluster ns spec)))"
  by (rule passes_final_induct) (simp_all add: Inv_newCluster Inv_step Inv_watch Inv_Spec)

lemma take_lifecycle:
  "take m (lifecycle c) \<in> {[], [Launched c], [Launched c, Fired], [Launched c, Fired, Launched c]}"
proof (cases m)
  case 0
  then show ?thesis by simp
next
  case (Suc m1)
  then show ?thesis
  proof (cases m1)
    case 0
    with Suc show ?thesis by (simp add: lifecycle_def)
  next
    case (Suc m2)
    with \<open>m = Suc m1\<close> show ?thesis by (cases m2) (simp_all add: lifecycle_def)
  qed
qed

lemma prefix_lifecycle:
  assumes "xs @ ys = take m (lifecycle c)"
  shows "xs \<in> {[], [Launched c], [Launched c, Fired], [Launched c, Fired, Launched c]}"
proof -
  have "xs = take (length xs) (xs @ ys)" by simp
  also have "\<dots> = take (min (length xs) m) (lifecycle c)" by (simp only: assms take_take)
  finally show ?thesis using take_lifecycle [of "min (length xs) m" c] by simp
qed

lemma active_history:
  assumes "history k c p \<in> {[], [Launched c], [Launched c, Fired], [Launched c, Fired, Launched c]}"
  shows "active k p \<le> 1"
proof -
  have l: "launches k p = List.map_filter launched (history k c p)" by (rule launches_history)
  have f: "Close c \<in> set p \<longleftrightarrow> Fired \<in> set (history k c p)" by (rule closed_history)
  from assms l f show ?thesis
    by (auto simp: active_def map_filter_def)
qed

lemma history_no_launch:
  "launches k tr = [] \<Longrightarrow> history k c tr = replicate (count_list tr (Close c)) Fired"
proof (induction tr)
  case Nil
  show ?case by simp
next
  case (Cons e tr)
  then show ?case by (cases e) (auto simp: history_Cons launches_Cons split: if_splits)
qed

lemma two_launches:
  assumes "xs @ Launched a # replicate r Fired @ Launched b # ys = take m (lifecycle c)"
  shows "r = 1 \<and> a = c"
proof -
  from take_lifecycle [of m c] assms
  have "xs @ Launched a # replicate r Fired @ Launched b # ys
          \<in> {[], [Launched c], [Launched c, Fired], [Launched c, Fired, Launched c]}"
    by simp
  then have e: "xs @ Launched a # replicate r Fired @ Launched b # ys = [Launched c, Fired, Launched c]"
    by (auto simp: append_eq_Cons_conv Cons_eq_append_conv)
  show ?thesis
  proof (cases xs)
    case Nil
    with e have a: "a = c" and r: "replicate r Fired @ Launched b # ys = [Fired, Launched c]" by simp_all
    from r have "r = 1"
    proof (cases r)
      case 0
      with r show ?thesis by simp
    next
      case (Suc r')
      with r show ?thesis by (cases r') simp_all
    qed
    with a show ?thesis by simp
  next
    case (Cons x xs')
    with e have "xs' @ Launched a # replicate r Fired @ Launched b # ys = [Fired, Launched c]" by simp
    then show ?thesis by (cases xs') (auto simp: append_eq_Cons_conv Cons_eq_append_conv)
  qed
qed

text \<open>
  C9. On a new cluster, for every sequence of passes and at every moment of it (every
  prefix of the trace, also of a pass that panics), at most one task of a kind is active:
  launched on a channel that has not been closed. And between two consecutive launches of
  the same kind, the channel handed to the first task is closed exactly once before the
  second task is started.
\<close>

theorem at_most_one_active:
  "active k (take n (trace (final (passes u ds (newCluster ns spec))))) \<le> 1
   \<and> (trace (final (passes u ds (newCluster ns spec))) = pre @ Go chk1 c1 # mid @ Go chk2 c2 # post
        \<longrightarrow> kind_of chk1 = k \<longrightarrow> kind_of chk2 = k \<longrightarrow> launches k mid = []
        \<longrightarrow> count_list mid (Close c1) = 1)"
proof -
  let ?s = "final (passes u ds (newCluster ns spec))"
  have "Inv ?s" by (rule Inv_passes)
  then have ok: "record_ok ?s k" by (simp add: Inv_def)
  have split: "trace ?s = take n (trace ?s) @ drop n (trace ?s)" by simp
  have one: "active k (take n (trace ?s)) \<le> 1"
  proof (cases "monitoringChannels ?s k")
    case None
    with ok have "launches k (trace ?s) = []" by (simp add: record_ok_def)
    then have "launches k (take n (trace ?s)) @ launches k (drop n (trace ?s)) = []"
      by (simp only: launches_append [symmetric] append_take_drop_id)
    then show ?thesis by (simp add: active_def)
  next
    case (Some h)
    with ok have "history k (stopChan h) (trace ?s) = take (phase h (chans ?s)) (lifecycle (stopChan h))"
      by (simp add: record_ok_def health_ok_def)
    then have "history k (stopChan h) (take n (trace ?s)) @ history k (stopChan h) (drop n (trace ?s))
        = take (phase h (chans ?s)) (lifecycle (stopChan h))"
      by (simp only: history_append [symmetric] append_take_drop_id)
    then show ?thesis by (intro active_history prefix_lifecycle)
  qed
  have two: "count_list mid (Close c1) = 1"
    if tr: "trace ?s = pre @ Go chk1 c1 # mid @ Go chk2 c2 # post"
      and k1: "kind_of chk1 = k" and k2: "kind_of chk2 = k" and m: "launches k mid = []"
  proof (cases "monitoringChannels ?s k")
    case None
    with ok have "launches k (trace ?s) = []" by (simp add: record_ok_def)
    with tr k1 show ?thesis by (simp add: launches_append launches_Cons)
  next
    case (Some h)
    let ?c = "stopChan h"
    from Some ok have "history k ?c (trace ?s) = take (phase h (chans ?s)) (lifecycle ?c)"
      by (simp add: record_ok_def health_ok_def)
    then have "history k ?c pre @ Launched c1 # replicate (count_list mid (Close ?c)) Fired
                 @ Launched c2 # history k ?c post = take (phase h (chans ?s)) (lifecycle ?c)"
      using k1 k2 by (simp add: tr history_append history_Cons history_no_launch [OF m])
    from two_launches [OF this] show ?thesis by simp
  qed
  from one two show ?thesis by blast
qed

theorem at_most_one_active_witness:
  "active ''mon'' (take 2 (trace (relaunched_mon ''client.admin'' ''rook-ceph''))) = 1
   \<and> active ''mon'' (take 9 (trace (relaunched_mon ''client.admin'' ''rook-ceph''))) = 0
   \<and> trace (relaunched_mon ''client.admin'' ''rook-ceph'')
       = take 1 (trace (relaunched_mon ''client.admin'' ''rook-ceph''))
         @ Go (MonHealthChecker all_enabled) 1
         # take 11 (drop 2 (trace (relaunched_mon ''client.admin'' ''rook-ceph'')))
         @ Go (MonHealthChecker all_enabled) 1
         # drop 14 (trace (relaunched_mon ''client.admin'' ''rook-ceph''))
   \<and> kind_of (MonHealthChecker all_enabled) = ''mon''
   \<and> launches ''mon'' (take 11 (drop 2 (trace (relaunched_mon ''client.admin'' ''rook-ceph'')))) = []
   \<and> count_list (take 11 (drop 2 (trace (relaunched_mon ''client.admin'' ''rook-ceph'')))) (Close 1) = 1"
  using at_most_one_active [of "''mon''" 2 "''client.admin''" "[all_enabled, mon_disabled, all_enabled]"
      "''rook-ceph''" all_enabled "take 1 (trace (relaunched_mon ''client.admin'' ''rook-ceph''))"
      "MonHealthChecker all_enabled" 1
      "take 11 (drop 2 (trace (relaunched_mon ''client.admin'' ''rook-ceph'')))"
      "MonHealthChecker all_enabled" 1
      "drop 14 (trace (relaunched_mon ''client.admin'' ''rook-ceph''))"]
  by (simp add: relaunched_mon_def active_def launches_def map_filter_def run_defs)

section \<open>Records persist\<close>

lemma record_kept_step:
  assumes "\<exists>h'. monitoringChannels s k = Some h' \<and> stopChan h' = c" "j \<in> set daemons"
  shows "\<exists>h'. monitoringChannels (final (reconcileDaemon u j s)) k = Some h' \<and> stopChan h' = c"
  using assms by (auto simp: final_reconcileDaemon emit_def split: option.splits)

lemma record_kept_watch:
  "monitoringChannels (final (startWatchers u s)) = monitoringChannels s"
  by (simp add: startWatchers_def emit_def)

lemma record_kept_passes:
  assumes "\<exists>h'. monitoringChannels s k = Some h' \<and> stopChan h' = c"
  shows "\<exists>h'. monitoringChannels (final (passes u ds s)) k = Some h' \<and> stopChan h' = c"
  by (rule passes_final_induct) (simp_all add: assms record_kept_step record_kept_watch)

lemma record_kept_pass:
  assumes "monitoringChannels s k = Some h"
  shows "\<exists>h'. monitoringChannels (final (configureCephMonitoring u s)) k = Some h' \<and> stopChan h' = stopChan h"
proof -
  have "passes u [Spec s] s = configureCephMonitoring u s"
    by (simp add: andThen_def split: sum.splits)
  with record_kept_passes [of s k "stopChan h" u "[Spec s]"] assms show ?thesis by simp
qed

text \<open>
  C8. In every state reached from a new cluster by passes (returned or at a panic), a
  kind has a record exactly if a task of that kind has been launched. And in every state,
  a pass keeps each record that exists, with its channel: no pass deletes a record;
  disabling changes the running flag only.
\<close>

theorem record_iff_launched:
  "(k \<in> dom (monitoringChannels (final (passes u ds (newCluster ns spec))))
      \<longleftrightarrow> launches k (trace (final (passes u ds (newCluster ns spec)))) \<noteq> [])
   \<and> (monitoringChannels s k = Some h \<longrightarrow>
        (\<exists>h'. monitoringChannels (final (configureCephMonitoring u' s)) k = Some h'
              \<and> stopChan h' = stopChan h))"
proof -
  let ?s = "final (passes u ds (newCluster ns spec))"
  have "Inv ?s" by (rule Inv_passes)
  then have ok: "record_ok ?s k" by (simp add: Inv_def)
  have "(k \<in> dom (monitoringChannels ?s)) = (launches k (trace ?s) \<noteq> [])"
  proof (cases "monitoringChannels ?s k")
    case None
    with ok show ?thesis by (simp add: record_ok_def dom_def)
  next
    case (Some h)
    with ok have "history k (stopChan h) (trace ?s) = take (phase h (chans ?s)) (lifecycle (stopChan h))"
      by (simp add: record_ok_def health_ok_def)
    then have "launches k (trace ?s) \<noteq> []"
      by (simp add: launches_history [of k _ "stopChan h"] phase_def lifecycle_def map_filter_def)
    with Some show ?thesis by (simp add: dom_def)
  qed
  then show ?thesis by (simp add: record_kept_pass)
qed

theorem record_iff_launched_witness:
  "''mon'' \<in> dom (monitoringChannels (stopped_mon ''client.admin'' ''rook-ceph''))
   \<and> launches ''mon'' (trace (stopped_mon ''client.admin'' ''rook-ceph'')) = [1]
   \<and> ''mgr'' \<notin> dom (monitoringChannels (stopped_mon ''client.admin'' ''rook-ceph''))
   \<and> launches ''mgr'' (trace (stopped_mon ''client.admin'' ''rook-ceph'')) = []
   \<and> monitoringChannels (stopped_mon ''client.admin'' ''rook-ceph'') ''mon''
       = Some \<lparr>stopChan = 1, monitoringRunning = False\<rparr>
   \<and> monitoringChannels (final (configureCephMonitoring ''client.admin''
        (stopped_mon ''client.admin'' ''rook-ceph''))) ''mon''
       = Some \<lparr>stopChan = 1, monitoringRunning = False\<rparr>"
  using record_iff_launched [of "''mon''" "''client.admin''" "[all_enabled, mon_disabled]"
      "''rook-ceph''" all_enabled "stopped_mon ''client.admin'' ''rook-ceph''"
      "\<lparr>stopChan = 1, monitoringRunning = False\<rparr>" "''client.admin''"]
  by (simp add: stopped_mon_def launches_def map_filter_def run_defs)

section \<open>The scenario\<close>

lemma perm3:
  assumes "a = x \<or> a = y \<or> a = z" "b = x \<or> b = y \<or> b = z" "c = x \<or> c = y \<or> c = z"
    "a \<noteq> b" "a \<noteq> c" "b \<noteq> c"
  shows "(a = x \<and> b = y \<and> c = z) \<or> (a = x \<and> b = z \<and> c = y)
       \<or> (a = y \<and> b = x \<and> c = z) \<or> (a = y \<and> b = z \<and> c = x)
       \<or> (a = z \<and> b = x \<and> c = y) \<or> (a = z \<and> b = y \<and> c = x)"
  using assms by blast

lemma perms:
  assumes "distinct [a, b, c]" "set [a, b, c] = set daemons"
  shows "(a = ''mon'' \<and> b = ''osd'' \<and> c = ''status'') \<or> (a = ''mon'' \<and> b = ''status'' \<and> c = ''osd'')
       \<or> (a = ''osd'' \<and> b = ''mon'' \<and> c = ''status'') \<or> (a = ''osd'' \<and> b = ''status'' \<and> c = ''mon'')
       \<or> (a = ''status'' \<and> b = ''mon'' \<and> c = ''osd'') \<or> (a = ''status'' \<and> b = ''osd'' \<and> c = ''mon'')"
proof -
  have "a \<in> set [a, b, c]" "b \<in> set [a, b, c]" "c \<in> set [a, b, c]" by simp_all
  then have "a \<in> set daemons" "b \<in> set daemons" "c \<in> set daemons"
    by (simp_all only: assms(2))
  then have a: "a = ''mon'' \<or> a = ''osd'' \<or> a = ''status''"
    and b: "b = ''mon'' \<or> b = ''osd'' \<or> b = ''status''"
    and c: "c = ''mon'' \<or> c = ''osd'' \<or> c = ''status''"
    by (simp_all add: daemons_def)
  from assms(1) have ne: "a \<noteq> b" "a \<noteq> c" "b \<noteq> c" by simp_all
  from a b c ne show ?thesis by (rule perm3)
qed

lemmas scen_defs = after_first_def after_second_def second_pass_def desired_def launches_def
  map_filter_def run_defs

text \<open>
  C7. Let a, b, c be the three kinds in any order. On a new cluster a pass with only b
  disabled and a pass with only a disabled both return. After the first, a and c have
  Running records and b has none. The second pass closes a's channel exactly once and
  leaves a Stopped, creates b's record and launches b's task on that record's channel,
  and leaves c's record as it was, with no launch of c and no close of c's channel.
\<close>

theorem three_kind_scenario:
  assumes "distinct [a, b, c]" "set [a, b, c] = set daemons"
  shows "panic_of (passes u [desired [b], desired [a]] (newCluster ns (desired []))) = None
    \<and> map_option monitoringRunning (monitoringChannels (after_first u ns b) a) = Some True
    \<and> map_option monitoringRunning (monitoringChannels (after_first u ns b) c) = Some True
    \<and> monitoringChannels (after_first u ns b) b = None
    \<and> count_list (second_pass u ns a b) (Close (stopChan (the (monitoringChannels (after_first u ns b) a)))) = 1
    \<and> map_option monitoringRunning (monitoringChannels (after_second u ns a b) a) = Some False
    \<and> map_option monitoringRunning (monitoringChannels (after_second u ns a b) b) = Some True
    \<and> launches b (second_pass u ns a b) = [stopChan (the (monitoringChannels (after_second u ns a b) b))]
    \<and> monitoringChannels (after_second u ns a b) c = monitoringChannels (after_first u ns b) c
    \<and> launches c (second_pass u ns a b) = []
    \<and> Close (stopChan (the (monitoringChannels (after_first u ns b) c))) \<notin> set (second_pass u ns a b)"
  using perms [OF assms]
proof (elim disjE conjE)
  assume "a = ''mon''" "b = ''osd''" "c = ''status''"
  then show ?thesis by (simp add: scen_defs)
next
  assume "a = ''mon''" "b = ''status''" "c = ''osd''"
  then show ?thesis by (simp add: scen_defs)
next
  assume "a = ''osd''" "b = ''mon''" "c = ''status''"
  then show ?thesis by (simp add: scen_defs)
next
  assume "a = ''osd''" "b = ''status''" "c = ''mon''"
  then show ?thesis by (simp add: scen_defs)
next
  assume "a = ''status''" "b = ''mon''" "c = ''osd''"
  then show ?thesis by (simp add: scen_defs)
next
  assume "a = ''status''" "b = ''osd''" "c = ''mon''"
  then show ?thesis by (simp add: scen_defs)
qed

theorem three_kind_scenario_witness:
  "distinct [''mon'', ''osd'', ''status''] \<and> set [''mon'', ''osd'', ''status''] = set daemons
   \<and> monitoringChannels (after_first ''client.admin'' ''rook-ceph'' ''osd'') ''mon''
       = Some \<lparr>stopChan = 1, monitoringRunning = True\<rparr>
   \<and> monitoringChannels (after_first ''client.admin'' ''rook-ceph'' ''osd'') ''osd'' = None
   \<and> monitoringChannels (after_first ''client.admin'' ''rook-ceph'' ''osd'') ''status''
       = Some \<lparr>stopChan = 2, monitoringRunning = True\<rparr>
   \<and> count_list (second_pass ''client.admin'' ''rook-ceph'' ''mon'' ''osd'') (Close 1) = 1
   \<and> launches ''osd'' (second_pass ''client.admin'' ''rook-ceph'' ''mon'' ''osd'') = [3]
   \<and> monitoringChannels (after_second ''client.admin'' ''rook-ceph'' ''mon'' ''osd'') ''osd''
       = Some \<lparr>stopChan = 3, monitoringRunning = True\<rparr>
   \<and> monitoringChannels (after_second ''client.admin'' ''rook-ceph'' ''mon'' ''osd'') ''status''
       = Some \<lparr>stopChan = 2, monitoringRunning = True\<rparr>
   \<and> launches ''status'' (second_pass ''client.admin'' ''rook-ceph'' ''mon'' ''osd'') = []
   \<and> Close 2 \<notin> set (second_pass ''client.admin'' ''rook-ceph'' ''mon'' ''osd'')"
  using three_kind_scenario [of "''mon''" "''osd''" "''status''" "''client.admin''" "''rook-ceph''"]
  by (simp add: scen_defs)

end
